theory Spec2Isabelle
  imports Complex_Main "HOL-Library.Multiset"
begin

section \<open>CalendarHeader: the responsive display-mode state\<close>

text \<open>
  \<^verbatim>\<open>src/views/components/calendar/CalendarHeader.tsx\<close>, lines 35-37: the three
  pixel thresholds.
\<close>

definition SECONDARY_ACTIONS_WITH_TEXT_WIDTH :: int where
  "SECONDARY_ACTIONS_WITH_TEXT_WIDTH = 274"

definition PRIMARY_ACTION_WITH_TEXT_WIDTH :: int where
  "PRIMARY_ACTION_WITH_TEXT_WIDTH = 405"

definition PRIMARY_ACTION_WITHOUT_TEXT_WIDTH :: int where
  "PRIMARY_ACTION_WITHOUT_TEXT_WIDTH = 160"

text \<open>
  The state of \<^verbatim>\<open>useState\<close> at lines 46-49: an object with two boolean fields.
\<close>

record display_text =
  isDisplayingPrimaryActionsText :: bool
  isDisplayingSecondaryActionsText :: bool

definition initial_display_text :: display_text where
  "initial_display_text =
     \<lparr>isDisplayingPrimaryActionsText = True, isDisplayingSecondaryActionsText = True\<rparr>"

text \<open>
  \<^verbatim>\<open>Math.round\<close> of ECMAScript: the integer closest to its argument, a tie going to
  the larger one. The measured width \<^verbatim>\<open>entry.contentRect.width\<close> is a finite
  non-negative double, hence a rational number, and \<^verbatim>\<open>Math.round\<close> is exact on it.
\<close>

definition Math_round :: "rat \<Rightarrow> int" where
  "Math_round x = \<lfloor>x + 1 / 2\<rfloor>"

text \<open>
  The body of the \<^verbatim>\<open>ResizeObserver\<close> callback, lines 54-85, for an entry whose
  \<^verbatim>\<open>contentRect.width\<close> is \<open>w\<close> and in the closure of a render whose state is \<open>st\<close>.
  The result is the argument of the call of \<^verbatim>\<open>setIsDisplayingText\<close> the callback
  makes, and \<open>None\<close> when it makes none. The four tests are in the order of the source and
  each one returns.
\<close>

definition resize_callback :: "display_text \<Rightarrow> rat \<Rightarrow> display_text option" where
  "resize_callback st w =
     (let width = Math_round w in
      if width < SECONDARY_ACTIONS_WITH_TEXT_WIDTH \<and>
         isDisplayingPrimaryActionsText st \<and>
         isDisplayingSecondaryActionsText st
      then Some \<lparr>isDisplayingPrimaryActionsText = False, isDisplayingSecondaryActionsText = True\<rparr>
      else if isDisplayingSecondaryActionsText st \<and>
         width - SECONDARY_ACTIONS_WITH_TEXT_WIDTH \<ge>
           PRIMARY_ACTION_WITH_TEXT_WIDTH - PRIMARY_ACTION_WITHOUT_TEXT_WIDTH
      then Some \<lparr>isDisplayingPrimaryActionsText = True, isDisplayingSecondaryActionsText = True\<rparr>
      else if width < SECONDARY_ACTIONS_WITH_TEXT_WIDTH \<and> isDisplayingSecondaryActionsText st
      then Some \<lparr>isDisplayingPrimaryActionsText = False, isDisplayingSecondaryActionsText = False\<rparr>
      else if width \<ge> SECONDARY_ACTIONS_WITH_TEXT_WIDTH \<and> \<not> isDisplayingSecondaryActionsText st
      then Some \<lparr>isDisplayingPrimaryActionsText = False, isDisplayingSecondaryActionsText = True\<rparr>
      else None)"

text \<open>
  One resize observation: the state of the next render. A call of the setter replaces
  the state, no call leaves it.
\<close>

definition resize_step :: "display_text \<Rightarrow> rat \<Rightarrow> display_text" where
  "resize_step st w = (case resize_callback st w of None \<Rightarrow> st | Some st' \<Rightarrow> st')"

text \<open>
  A sequence of observations, from the first to the last. The effect at lines 51-90
  depends on both fields, so every observation runs in the closure of the current state.
\<close>

definition resize_run :: "display_text \<Rightarrow> rat list \<Rightarrow> display_text" where
  "resize_run st ws = foldl resize_step st ws"

text \<open>
  The transition rules in the words of the specification, on a pair
  \<open>(primaryText, secondaryText)\<close> and an integer width: the four rules in order, the first
  match winning, and no change otherwise.
\<close>

definition spec_rules :: "bool \<times> bool \<Rightarrow> int \<Rightarrow> bool \<times> bool" where
  "spec_rules ps w =
     (if ps = (True, True) \<and> w < 274 then (False, True)
      else if snd ps \<and> w - 274 \<ge> 405 - 160 then (True, True)
      else if snd ps \<and> w < 274 then (False, False)
      else if \<not> snd ps \<and> w \<ge> 274 then (False, True)
      else ps)"

definition as_pair :: "display_text \<Rightarrow> bool \<times> bool" where
  "as_pair st = (isDisplayingPrimaryActionsText st, isDisplayingSecondaryActionsText st)"

text \<open>The three display modes of the specification.\<close>

definition display_modes :: "(bool \<times> bool) list" where
  "display_modes = [(True, True), (False, True), (False, False)]"

definition is_display_mode :: "display_text \<Rightarrow> bool" where
  "is_display_mode st = (as_pair st \<in> set display_modes)"

section \<open>SortableList: drag-and-drop reordering\<close>

text \<open>
  \<^verbatim>\<open>BaseItem\<close> (lines 20-22): an item carries an identifier, and whatever else the
  caller's type adds to it.
\<close>

record ('i, 'p) base_item =
  item_id :: 'i
  payload :: 'p

text \<open>
  The three \<^verbatim>\<open>useState\<close> cells of lines 51-53. Of the \<^verbatim>\<open>Active\<close> object the
  component reads the identifier only.
\<close>

record ('i, 'p) sortable_state =
  active :: "'i option"
  isDragging :: bool
  items :: "('i, 'p) base_item list"

definition initial_sortable :: "('i, 'p) base_item list \<Rightarrow> ('i, 'p) sortable_state" where
  "initial_sortable draggables = \<lparr>active = None, isDragging = False, items = draggables\<rparr>"

text \<open>The effect of lines 55-57: the held sequence follows the \<^verbatim>\<open>draggables\<close> prop.\<close>

definition sync_draggables ::
  "('i, 'p) base_item list \<Rightarrow> ('i, 'p) sortable_state \<Rightarrow> ('i, 'p) sortable_state" where
  "sync_draggables draggables st = st\<lparr>items := draggables\<rparr>"

text \<open>
  \<^verbatim>\<open>Array.prototype.findIndex\<close>: the index of the first element that satisfies the
  predicate, and \<open>-1\<close> when there is none.
\<close>

fun findIndex :: "('a \<Rightarrow> bool) \<Rightarrow> 'a list \<Rightarrow> int" where
  "findIndex P [] = - 1"
| "findIndex P (x # xs) =
     (if P x then 0 else (let r = findIndex P xs in if r < 0 then - 1 else r + 1))"

text \<open>
  The start position \<^verbatim>\<open>Array.prototype.splice\<close> works at, for an array of length
  \<open>len\<close>: a negative start counts from the end, and both ends clamp.
\<close>

definition splice_start :: "int \<Rightarrow> nat \<Rightarrow> nat" where
  "splice_start start len =
     (if start < 0 then nat (max (int len + start) 0) else min (nat start) len)"

text \<open>
  Modelled from the spec: \<^verbatim>\<open>arrayMove\<close> is imported from \<^verbatim>\<open>@dnd-kit/sortable\<close>
  (line 5) and its body is not among the sources. The specification describes what it
  computes as removing the item at the active index and reinserting it at the target
  index. The model does that on a copy of the array with two calls of \<^verbatim>\<open>splice\<close>: the
  target position is read first (a negative one counts from the end of the array as it
  is before the removal), one element is spliced out at \<open>from\<close>, and it is spliced in at
  the target. When nothing is spliced out the element inserted would be
  \<^verbatim>\<open>undefined\<close>, which is no item: the result is \<open>None\<close> then.
\<close>

definition arrayMove :: "'a list \<Rightarrow> int \<Rightarrow> int \<Rightarrow> 'a list option" where
  "arrayMove array from to =
     (let target = (if to < 0 then int (length array) + to else to);
          i = splice_start from (length array);
          removed = take 1 (drop i array);
          newArray = take i array @ drop (i + 1) array;
          j = splice_start target (length newArray)
      in case removed of
           [] \<Rightarrow> None
         | x # _ \<Rightarrow> Some (take j newArray @ [x] @ drop j newArray))"

text \<open>
  The reordering in the words of the specification, on positions of the list: the item
  at index \<open>i\<close> is removed and inserted at index \<open>j\<close>.
\<close>

definition remove_at :: "nat \<Rightarrow> 'a list \<Rightarrow> 'a list" where
  "remove_at i xs = take i xs @ drop (Suc i) xs"

definition insert_at :: "nat \<Rightarrow> 'a \<Rightarrow> 'a list \<Rightarrow> 'a list" where
  "insert_at j x xs = take j xs @ x # drop j xs"

definition move_item :: "nat \<Rightarrow> nat \<Rightarrow> 'a list \<Rightarrow> 'a list" where
  "move_item i j xs = insert_at j (xs ! i) (remove_at i xs)"

text \<open>Exchanging the items at two positions, which is what a move is not.\<close>

definition swap_items :: "nat \<Rightarrow> nat \<Rightarrow> 'a list \<Rightarrow> 'a list" where
  "swap_items i j xs = xs[i := xs ! j, j := xs ! i]"

text \<open>
  The handlers of the \<^verbatim>\<open>DndContext\<close>, lines 79-97. A handler returns the state of the
  next render together with the arguments of the calls of \<^verbatim>\<open>onChange\<close> it made, in
  order. \<^verbatim>\<open>onDragEnd\<close> receives the identifier of the active item and, when the drag
  ended over an item, the identifier of that one. Its result is \<open>None\<close> where
  \<^verbatim>\<open>arrayMove\<close> has no array of items to give, which needs an empty held sequence.
\<close>

definition onDragStart :: "'i \<Rightarrow> ('i, 'p) sortable_state \<Rightarrow> ('i, 'p) sortable_state" where
  "onDragStart a st = st\<lparr>isDragging := True, active := Some a\<rparr>"

definition onDragEnd ::
  "'i \<Rightarrow> 'i option \<Rightarrow> ('i, 'p) sortable_state \<Rightarrow>
     (('i, 'p) sortable_state \<times> ('i, 'p) base_item list list) option" where
  "onDragEnd a over st =
     (let st1 = st\<lparr>isDragging := False\<rparr> in
      case over of
        None \<Rightarrow> Some (st1\<lparr>active := None\<rparr>, [])
      | Some ov \<Rightarrow>
          if a \<noteq> ov then
            (let activeIndex = findIndex (\<lambda>it. item_id it = a) (items st);
                 overIndex = findIndex (\<lambda>it. item_id it = ov) (items st)
             in case arrayMove (items st) activeIndex overIndex of
                  None \<Rightarrow> None
                | Some reorderedItems \<Rightarrow>
                    Some (st1\<lparr>items := reorderedItems, active := None\<rparr>, [reorderedItems]))
          else Some (st1\<lparr>active := None\<rparr>, []))"

definition onDragCancel ::
  "('i, 'p) sortable_state \<Rightarrow> ('i, 'p) sortable_state \<times> ('i, 'p) base_item list list" where
  "onDragCancel st = (st\<lparr>isDragging := False, active := None\<rparr>, [])"

text \<open>The state between two drags: nothing active and not in dragging mode.\<close>

definition idle :: "('i, 'p) sortable_state \<Rightarrow> bool" where
  "idle st = (active st = None \<and> \<not> isDragging st)"

section \<open>PopupCourseBlock: the course block of the popup\<close>

text \<open>
  \<^verbatim>\<open>src/views/components/common/PopupCourseBlock.tsx\<close> holds the component (lines
  1-186) and a variant of it that takes drag-handle props (lines 187-299). The type
  \<^verbatim>\<open>Course\<close> and the enumeration \<^verbatim>\<open>Status\<close> are declared outside the sources: the
  type of a status is a parameter \<open>'s\<close> here, and the member \<^verbatim>\<open>Status.OPEN\<close> is a
  parameter of the functions that read it. Of a course only the fields the handlers and
  the conditions of the rendering read are kept.
\<close>

record 's course =
  uniqueId :: nat
  status :: 's

text \<open>
  Lines 80 and 254: \<^verbatim>\<open>course.uniqueId.toString().padStart(5, '0')\<close>, the decimal digits
  of the identifier, filled on the left with zeros up to five characters. The
  identifier is a non-negative integer below \<open>10^21\<close>, the range in which
  \<^verbatim>\<open>Number.prototype.toString\<close> prints the decimal digits and nothing else; from
  \<open>10^21\<close> on it prints an exponent, which \<open>toString\<close> below does not follow.
\<close>

fun toString :: "nat \<Rightarrow> string" where
  "toString n =
     (if n < 10 then [char_of (48 + n)] else toString (n div 10) @ [char_of (48 + n mod 10)])"

definition padStart :: "nat \<Rightarrow> char \<Rightarrow> string \<Rightarrow> string" where
  "padStart targetLength c s = replicate (targetLength - length s) c @ s"

definition formattedUniqueId :: "'s course \<Rightarrow> string" where
  "formattedUniqueId course = padStart 5 (CHR ''0'') (toString (uniqueId course))"

subsection \<open>What a render shows\<close>

text \<open>
  The children of the block in the order of the JSX, lines 112-183 and 273-296. A
  condition \<^verbatim>\<open>c && <element>\<close> contributes the element when \<open>c\<close> holds and nothing
  otherwise.
\<close>

datatype 's element =
    DragHandle
  | HandleIcon
  | CourseTitle
  | MeetingLines
  | StatusChip 's
  | CopyButton bool string

definition PopupCourseBlock_render ::
  "'s \<Rightarrow> bool \<Rightarrow> 's course \<Rightarrow> bool \<Rightarrow> bool \<Rightarrow> bool \<Rightarrow> 's element list" where
  "PopupCourseBlock_render OPEN IS_STORYBOOK course enableCourseStatusChips
       enableTimeAndLocationInPopup isCopied =
     [if IS_STORYBOOK then HandleIcon else DragHandle] @
     [CourseTitle] @
     (if enableTimeAndLocationInPopup then [MeetingLines] else []) @
     (if enableCourseStatusChips \<and> status course \<noteq> OPEN then [StatusChip (status course)] else []) @
     [CopyButton isCopied (formattedUniqueId course)]"

definition PopupCourseBlock_variant_render :: "'s \<Rightarrow> 's course \<Rightarrow> bool \<Rightarrow> 's element list" where
  "PopupCourseBlock_variant_render OPEN course enableCourseStatusChips =
     [DragHandle] @
     [CourseTitle] @
     (if enableCourseStatusChips \<and> status course \<noteq> OPEN then [StatusChip (status course)] else [])"

definition shows_status_chip :: "'s element list \<Rightarrow> bool" where
  "shows_status_chip view = list_ex (\<lambda>e. case e of StatusChip _ \<Rightarrow> True | _ \<Rightarrow> False) view"

subsection \<open>A click on the block\<close>

text \<open>
  \<^verbatim>\<open>handleClick\<close>, lines 82-85 and 256-259, is an \<^verbatim>\<open>async\<close> function with one
  \<^verbatim>\<open>await\<close>. What it does depends on how the promise of
  \<^verbatim>\<open>background.switchToCalendarTab\<close> settles: \<open>None\<close> is a promise that is still
  pending. The result is the sequence of what happens, in order: the call with its
  argument, the settlement, and the close of the window, which stands behind the
  \<^verbatim>\<open>await\<close>. A rejection leaves the function at the \<^verbatim>\<open>await\<close>.
\<close>

datatype settlement = Resolved | Rejected

datatype click_action =
    SwitchToCalendarTab nat
  | Settled settlement
  | WindowClose

definition handleClick :: "'s course \<Rightarrow> settlement option \<Rightarrow> click_action list" where
  "handleClick course outcome =
     SwitchToCalendarTab (uniqueId course) #
     (case outcome of
        None \<Rightarrow> []
      | Some Resolved \<Rightarrow> [Settled Resolved, WindowClose]
      | Some Rejected \<Rightarrow> [Settled Rejected])"

definition handleClick_variant :: "'s course \<Rightarrow> settlement option \<Rightarrow> click_action list" where
  "handleClick_variant course outcome =
     SwitchToCalendarTab (uniqueId course) #
     (case outcome of
        None \<Rightarrow> []
      | Some Resolved \<Rightarrow> [Settled Resolved, WindowClose]
      | Some Rejected \<Rightarrow> [Settled Rejected])"

text \<open>The actions that precede the first close of the window.\<close>

definition before_close :: "click_action list \<Rightarrow> click_action list" where
  "before_close acts = takeWhile (\<lambda>a. a \<noteq> WindowClose) acts"

subsection \<open>The copy control\<close>

text \<open>
  The cells \<^verbatim>\<open>handleCopy\<close> works on (lines 40-41), and what it leaves in its
  environment: the texts written to the clipboard, the number of invocations that wait
  at the \<^verbatim>\<open>await\<close> of line 95, the times at which the pending callbacks of
  \<^verbatim>\<open>setTimeout\<close> are due (in the order they were set), and the number of rejections
  nobody handles. Times are milliseconds, as \<^verbatim>\<open>Date.now()\<close> counts them.
\<close>

record copy_state =
  lastCopyTime :: int
  isCopied :: bool
  clipboardWrites :: "string list"
  awaiting :: nat
  timeouts :: "int list"
  unhandledRejections :: nat

definition initial_copy_state :: copy_state where
  "initial_copy_state =
     \<lparr>lastCopyTime = 0, isCopied = False, clipboardWrites = [], awaiting = 0,
      timeouts = [], unhandledRejections = 0\<rparr>"

text \<open>
  \<^verbatim>\<open>handleCopy\<close> up to its \<^verbatim>\<open>await\<close>, lines 88-95, invoked when \<^verbatim>\<open>Date.now()\<close> is
  \<open>now\<close>, with the text it writes, \<^verbatim>\<open>formattedUniqueId\<close>: the guard returns at once;
  otherwise the time is stored and the write is issued. The call of
  \<^verbatim>\<open>stopPropagation\<close> keeps the click from the handler of the block, so a click on
  the copy control is no click on the block.
\<close>

definition handleCopy :: "string \<Rightarrow> int \<Rightarrow> copy_state \<Rightarrow> copy_state" where
  "handleCopy str now s =
     (if now - lastCopyTime s < 500 then s
      else s\<lparr>lastCopyTime := now,
             clipboardWrites := clipboardWrites s @ [str],
             awaiting := Suc (awaiting s)\<rparr>)"

text \<open>
  \<^verbatim>\<open>handleCopy\<close> behind its \<^verbatim>\<open>await\<close>, lines 96-97, resumed at time \<open>now\<close> when the
  write has succeeded: the state becomes copied and a callback is set 500 ms ahead.
\<close>

definition handleCopy_resumed :: "int \<Rightarrow> copy_state \<Rightarrow> copy_state" where
  "handleCopy_resumed now s =
     (if awaiting s = 0 then s
      else s\<lparr>awaiting := awaiting s - 1,
             isCopied := True,
             timeouts := timeouts s @ [now + 500]\<rparr>)"

text \<open>A write that fails: the invocation ends at the \<^verbatim>\<open>await\<close> with a rejection.\<close>

definition handleCopy_rejected :: "copy_state \<Rightarrow> copy_state" where
  "handleCopy_rejected s =
     (if awaiting s = 0 then s
      else s\<lparr>awaiting := awaiting s - 1,
             unhandledRejections := Suc (unhandledRejections s)\<rparr>)"

text \<open>The callback of line 97, run for the pending timeout that is due first.\<close>

definition timeout_fires :: "copy_state \<Rightarrow> copy_state" where
  "timeout_fires s =
     (case timeouts s of
        [] \<Rightarrow> s
      | due # rest \<Rightarrow> s\<lparr>isCopied := False, timeouts := rest\<rparr>)"

text \<open>What can happen to the copy control, and a history of it in the order of time.\<close>

datatype copy_event =
    CopyClicked int
  | WriteTextResolved int
  | WriteTextRejected
  | TimeoutFires

fun copy_step :: "string \<Rightarrow> copy_state \<Rightarrow> copy_event \<Rightarrow> copy_state" where
  "copy_step str s (CopyClicked now) = handleCopy str now s"
| "copy_step str s (WriteTextResolved now) = handleCopy_resumed now s"
| "copy_step str s WriteTextRejected = handleCopy_rejected s"
| "copy_step str s TimeoutFires = timeout_fires s"

definition copy_run :: "string \<Rightarrow> copy_state \<Rightarrow> copy_event list \<Rightarrow> copy_state" where
  "copy_run str s evs = foldl (copy_step str) s evs"

text \<open>An invocation that the guard of line 90 stops in state \<open>s\<close>.\<close>

definition guarded :: "copy_state \<Rightarrow> int \<Rightarrow> bool" where
  "guarded s now = (now - lastCopyTime s < 500)"

text \<open>
  The events of a history that are invocations of the copy control less than 500 ms
  behind the time \<open>t\<close>, or no invocation at all.
\<close>

fun within_500_of :: "int \<Rightarrow> copy_event \<Rightarrow> bool" where
  "within_500_of t (CopyClicked now) = (now - t < 500)"
| "within_500_of t _ = True"

text \<open>The events in which a pending callback of \<^verbatim>\<open>setTimeout\<close> runs.\<close>

fun is_timeout :: "copy_event \<Rightarrow> bool" where
  "is_timeout TimeoutFires = True"
| "is_timeout _ = False"

subsection \<open>The display settings and their listeners\<close>

text \<open>The two settings the blocks read, which also name the state cells that mirror them.\<close>

datatype option_key = EnableCourseStatusChips | EnableTimeAndLocationInPopup

text \<open>
  Modelled from the spec: \<^verbatim>\<open>OptionsStore\<close> is imported from
  \<^verbatim>\<open>@shared/storage/OptionsStore\<close> and is not among the sources. The specification gives
  its contract: \<^verbatim>\<open>subscribe(key, onChange(newValue)) -> listenerHandle\<close> and
  \<^verbatim>\<open>unsubscribe(handle)\<close>, change notifications being delivered in the order the store
  emits them. The model keeps the subscriptions in the order they were made, each with
  its handle, its key and its callback; a handle is a number never given out before;
  unsubscribing removes the subscription of that handle; a change of a key reaches the
  callbacks subscribed to that key, in order.
\<close>

record 'cb options_store =
  listeners :: "(nat \<times> option_key \<times> 'cb) list"
  nextHandle :: nat

definition listen :: "option_key \<Rightarrow> 'cb \<Rightarrow> 'cb options_store \<Rightarrow> nat \<times> 'cb options_store" where
  "listen key cb st =
     (nextHandle st,
      st\<lparr>listeners := listeners st @ [(nextHandle st, key, cb)],
         nextHandle := Suc (nextHandle st)\<rparr>)"

definition removeListener :: "nat \<Rightarrow> 'cb options_store \<Rightarrow> 'cb options_store" where
  "removeListener h st = st\<lparr>listeners := filter (\<lambda>l. fst l \<noteq> h) (listeners st)\<rparr>"

definition notified :: "option_key \<Rightarrow> 'cb options_store \<Rightarrow> 'cb list" where
  "notified key st = map (\<lambda>l. snd (snd l)) (filter (\<lambda>l. fst (snd l) = key) (listeners st))"

text \<open>
  A mounted block: which of the two components it is an instance of, the state cells
  that mirror settings (lines 37-38; the variant has the first one only, line 225), and
  the handles its effect keeps for the cleanup (\<^verbatim>\<open>l1\<close> and \<^verbatim>\<open>l2\<close>, lines 53-59;
  \<^verbatim>\<open>l1\<close>, line 231).
\<close>

datatype block_kind = Component | Variant

record block =
  kind :: block_kind
  cells :: "option_key \<rightharpoonup> bool"
  handles :: "nat list"

text \<open>
  The store together with the blocks that are mounted, each under the number of its
  instance. A callback of a block is the setter of one of its cells: the instance and
  the cell.
\<close>

record world =
  store :: "(nat \<times> option_key) options_store"
  mounted :: "nat \<rightharpoonup> block"

definition empty_world :: world where
  "empty_world = \<lparr>store = \<lparr>listeners = [], nextHandle = 0\<rparr>, mounted = Map.empty\<rparr>"

text \<open>
  A call of a state setter of instance \<open>i\<close>. React drops the update of a component that
  is not mounted.
\<close>

definition setState :: "nat \<Rightarrow> option_key \<Rightarrow> bool \<Rightarrow> world \<Rightarrow> world" where
  "setState i cell v w =
     (case mounted w i of
        None \<Rightarrow> w
      | Some b \<Rightarrow> w\<lparr>mounted := (mounted w)(i \<mapsto> b\<lparr>cells := (cells b)(cell \<mapsto> v)\<rparr>)\<rparr>)"

text \<open>
  The effect of lines 44-76 at the mount of instance \<open>i\<close>: both cells start as
  \<^verbatim>\<open>false\<close>, and two listeners are registered, each calling the setter of the cell of
  its key.
\<close>

definition mount :: "nat \<Rightarrow> world \<Rightarrow> world" where
  "mount i w =
     (let (l1, st1) = listen EnableCourseStatusChips (i, EnableCourseStatusChips) (store w);
          (l2, st2) = listen EnableTimeAndLocationInPopup (i, EnableTimeAndLocationInPopup) st1
      in \<lparr>store = st2,
          mounted = (mounted w)(i \<mapsto>
            \<lparr>kind = Component,
             cells = [EnableCourseStatusChips \<mapsto> False, EnableTimeAndLocationInPopup \<mapsto> False],
             handles = [l1, l2]\<rparr>)\<rparr>)"

text \<open>The effect of the variant, lines 228-250: one cell and one listener.\<close>

definition mount_variant :: "nat \<Rightarrow> world \<Rightarrow> world" where
  "mount_variant i w =
     (let (l1, st1) = listen EnableCourseStatusChips (i, EnableCourseStatusChips) (store w)
      in \<lparr>store = st1,
          mounted = (mounted w)(i \<mapsto>
            \<lparr>kind = Variant, cells = [EnableCourseStatusChips \<mapsto> False], handles = [l1]\<rparr>)\<rparr>)"

text \<open>
  The cleanup of the effect (lines 72-75 and 247-249) at the unmount of instance \<open>i\<close>:
  the handles kept are removed from the store, in order.
\<close>

definition unmount :: "nat \<Rightarrow> world \<Rightarrow> world" where
  "unmount i w =
     (case mounted w i of
        None \<Rightarrow> w
      | Some b \<Rightarrow>
          \<lparr>store = foldl (\<lambda>st h. removeListener h st) (store w) (handles b),
           mounted = (mounted w)(i := None)\<rparr>)"

text \<open>
  A change notification of the store for \<open>key\<close> with the new value \<open>v\<close>: every callback
  subscribed to the key runs, in order.
\<close>

definition settings_changed :: "option_key \<Rightarrow> bool \<Rightarrow> world \<Rightarrow> world" where
  "settings_changed key v w =
     foldl (\<lambda>w' cb. setState (fst cb) (snd cb) v w') w (notified key (store w))"

text \<open>
  The promise of \<^verbatim>\<open>initSettings\<close> resolving for instance \<open>i\<close> (lines 45-51, and line 229
  for the variant).
\<close>

definition initSettings_resolved :: "nat \<Rightarrow> bool \<Rightarrow> bool \<Rightarrow> world \<Rightarrow> world" where
  "initSettings_resolved i chips timeAndLocation w =
     setState i EnableTimeAndLocationInPopup timeAndLocation
       (setState i EnableCourseStatusChips chips w)"

definition initSettings_resolved_variant :: "nat \<Rightarrow> bool \<Rightarrow> world \<Rightarrow> world" where
  "initSettings_resolved_variant i chips w = setState i EnableCourseStatusChips chips w"

text \<open>The subscriptions whose callback belongs to instance \<open>i\<close>.\<close>

definition listeners_of :: "nat \<Rightarrow> world \<Rightarrow> (nat \<times> option_key \<times> nat \<times> option_key) list" where
  "listeners_of i w = filter (\<lambda>l. fst (snd (snd l)) = i) (listeners (store w))"

text \<open>
  The subscriptions a mounted block of each kind is to have, without their handles: the
  key and the callback.
\<close>

fun subscriptions :: "nat \<Rightarrow> block_kind \<Rightarrow> (option_key \<times> nat \<times> option_key) list" where
  "subscriptions i Component =
     [(EnableCourseStatusChips, i, EnableCourseStatusChips),
      (EnableTimeAndLocationInPopup, i, EnableTimeAndLocationInPopup)]"
| "subscriptions i Variant = [(EnableCourseStatusChips, i, EnableCourseStatusChips)]"

text \<open>The cells a block of each kind has.\<close>

fun has_cell :: "block_kind \<Rightarrow> option_key \<Rightarrow> bool" where
  "has_cell Component key = True"
| "has_cell Variant key = (key = EnableCourseStatusChips)"

text \<open>
  Histories of the popup: blocks of both kinds mount under an instance number that is
  not in use, unmount, and settings load and change in between. The promise of
  \<^verbatim>\<open>initSettings\<close> resolves into the continuation of the component it was called by.
\<close>

datatype world_event =
    Mount nat
  | MountVariant nat
  | Unmount nat
  | InitSettingsResolved nat bool bool
  | SettingsChanged option_key bool

fun world_step :: "world \<Rightarrow> world_event \<Rightarrow> world" where
  "world_step w (Mount i) = (if mounted w i = None then mount i w else w)"
| "world_step w (MountVariant i) = (if mounted w i = None then mount_variant i w else w)"
| "world_step w (Unmount i) = unmount i w"
| "world_step w (InitSettingsResolved i c t) =
     (case mounted w i of
        None \<Rightarrow> w
      | Some b \<Rightarrow>
          (case kind b of
             Component \<Rightarrow> initSettings_resolved i c t w
           | Variant \<Rightarrow> initSettings_resolved_variant i c w))"
| "world_step w (SettingsChanged key v) = settings_changed key v w"

definition world_run :: "world \<Rightarrow> world_event list \<Rightarrow> world" where
  "world_run w evs = foldl world_step w evs"

text \<open>The value a cell of instance \<open>i\<close> holds, when the instance is mounted and has it.\<close>

definition cell_of :: "world \<Rightarrow> nat \<Rightarrow> option_key \<Rightarrow> bool option" where
  "cell_of w i key = (case mounted w i of None \<Rightarrow> None | Some b \<Rightarrow> cells b key)"

text \<open>
  What holds of every world a history reaches. A handle in the store is below the next
  one and occurs once. The subscriptions of a mounted block are the ones of its kind,
  under the handles it keeps, and a block that is not mounted has none.
\<close>

definition handles_fresh :: "world \<Rightarrow> bool" where
  "handles_fresh w =
     (list_all (\<lambda>l. fst l < nextHandle (store w)) (listeners (store w)) \<and>
      distinct (map fst (listeners (store w))))"

definition paired :: "world \<Rightarrow> bool" where
  "paired w =
     (\<forall>i. case mounted w i of
            None \<Rightarrow> listeners_of i w = []
          | Some b \<Rightarrow> map fst (listeners_of i w) = handles b \<and>
                      map snd (listeners_of i w) = subscriptions i (kind b))"

definition well_paired :: "world \<Rightarrow> bool" where
  "well_paired w = (handles_fresh w \<and> paired w)"

section \<open>The header follows its rules\<close>

lemmas header_consts =
  SECONDARY_ACTIONS_WITH_TEXT_WIDTH_def PRIMARY_ACTION_WITH_TEXT_WIDTH_def
  PRIMARY_ACTION_WITHOUT_TEXT_WIDTH_def

lemma Math_round_of_int: "Math_round (of_int n) = n"
  unfolding Math_round_def by linarith

lemma Math_round_numeral: "Math_round (numeral k) = numeral k"
  using Math_round_of_int [of "numeral k"] by simp

lemma Math_round_nearest: "\<bar>of_int (Math_round w) - w\<bar> \<le> 1 / 2"
  unfolding Math_round_def by linarith

lemma resize_callback_mode:
  "resize_callback st w = Some st' \<Longrightarrow> is_display_mode st'"
  by (auto simp: resize_callback_def Let_def is_display_mode_def as_pair_def display_modes_def
      split: if_splits)

lemma resize_step_mode: "is_display_mode st \<Longrightarrow> is_display_mode (resize_step st w)"
  by (auto simp: resize_step_def dest: resize_callback_mode split: option.splits)

text \<open>
  Claim C1. The width the rules see is the one the callback computes, which is
  \<^verbatim>\<open>Math.round\<close> of the measured width. For every state (the three display modes
  among them) and every measured width, one resize step leads to the state that the
  four rules of the specification give at that width, the first match winning, and leaves
  the state as it is when no rule matches. On a width that is a whole number of pixels
  the rules apply to the width itself.
\<close>

theorem resize_step_follows_rules:
  "as_pair (resize_step st w) = spec_rules (as_pair st) (Math_round w) \<and>
   as_pair (resize_step st (of_int n)) = spec_rules (as_pair st) n"
  by (simp add: resize_step_def resize_callback_def Let_def spec_rules_def as_pair_def
      header_consts Math_round_of_int)

theorem resize_step_follows_rules_witness:
  "as_pair (resize_step initial_display_text 200) = (False, True) \<and>
   spec_rules (True, True) 200 = (False, True) \<and>
   as_pair (resize_step
      \<lparr>isDisplayingPrimaryActionsText = False, isDisplayingSecondaryActionsText = True\<rparr> 519) =
     (True, True) \<and>
   as_pair (resize_step
      \<lparr>isDisplayingPrimaryActionsText = False, isDisplayingSecondaryActionsText = True\<rparr> 150) =
     (False, False) \<and>
   as_pair (resize_step
      \<lparr>isDisplayingPrimaryActionsText = False, isDisplayingSecondaryActionsText = False\<rparr> 280) =
     (False, True) \<and>
   as_pair (resize_step initial_display_text 300) = (True, True)"
  using resize_step_follows_rules [of initial_display_text 200 200]
    resize_step_follows_rules
      [of "\<lparr>isDisplayingPrimaryActionsText = False, isDisplayingSecondaryActionsText = True\<rparr>"
        519 519]
    resize_step_follows_rules
      [of "\<lparr>isDisplayingPrimaryActionsText = False, isDisplayingSecondaryActionsText = True\<rparr>"
        150 150]
    resize_step_follows_rules
      [of "\<lparr>isDisplayingPrimaryActionsText = False, isDisplayingSecondaryActionsText = False\<rparr>"
        280 280]
    resize_step_follows_rules [of initial_display_text 300 300]
  by (simp add: spec_rules_def as_pair_def initial_display_text_def Math_round_numeral)

text \<open>
  Claim C2. From the initial state, in which both texts are displayed, every sequence
  of measured widths leads to one of the three display modes: the state with the primary
  text displayed and the secondary text hidden is never reached. A prefix of a sequence
  is a sequence, so this holds of every state on the way.
\<close>

theorem resize_run_display_mode:
  "is_display_mode (resize_run initial_display_text ws) \<and>
   as_pair (resize_run initial_display_text ws) \<noteq> (True, False)"
proof -
  have "is_display_mode st \<Longrightarrow> is_display_mode (foldl resize_step st ws)" for st
    by (induction ws arbitrary: st) (simp_all add: resize_step_mode)
  moreover have "is_display_mode initial_display_text"
    by (simp add: is_display_mode_def initial_display_text_def as_pair_def display_modes_def)
  ultimately have "is_display_mode (resize_run initial_display_text ws)"
    by (simp add: resize_run_def)
  then show ?thesis
    by (auto simp: is_display_mode_def display_modes_def)
qed

theorem resize_run_display_mode_witness:
  "is_display_mode (resize_run initial_display_text [300, 200, 450, 150, 280]) \<and>
   as_pair (resize_run initial_display_text [300, 200, 450, 150, 280]) = (False, True)"
proof -
  have "as_pair (resize_run initial_display_text [300, 200, 450, 150, 280]) = (False, True)"
    by (simp add: resize_run_def resize_step_def resize_callback_def as_pair_def
        initial_display_text_def header_consts Math_round_numeral)
  then show ?thesis
    using resize_run_display_mode [of "[300, 200, 450, 150, 280]"] by simp
qed

text \<open>
  Claim C10. The callback rounds the measured width before it tests it: what it does
  at a width is what it does at the rounded width, the rounded width is an integer at
  most half a pixel away, and a tie goes up. A measured width of 273.5 counts as 274, so
  in the initial state the callback makes no transition there, where a width of 273
  hides the primary text.
\<close>

theorem resize_rounds_width:
  "resize_callback st w = resize_callback st (of_int (Math_round w)) \<and>
   \<bar>of_int (Math_round w) - w\<bar> \<le> 1 / 2 \<and>
   Math_round (547 / 2) = 274 \<and>
   resize_callback initial_display_text (547 / 2) = None \<and>
   resize_callback initial_display_text 273 =
     Some \<lparr>isDisplayingPrimaryActionsText = False, isDisplayingSecondaryActionsText = True\<rparr>"
proof -
  have r: "Math_round (547 / 2) = 274" "Math_round 273 = 273"
    unfolding Math_round_def by linarith+
  show ?thesis
    using Math_round_nearest [of w]
    by (simp add: resize_callback_def Math_round_of_int r header_consts initial_display_text_def)
qed

theorem resize_rounds_width_witness:
  "resize_callback initial_display_text (547 / 2) = resize_callback initial_display_text 274 \<and>
   \<bar>274 - 547 / 2\<bar> \<le> (1 / 2 :: rat)"
proof -
  have "Math_round (547 / 2) = 274"
    unfolding Math_round_def by linarith
  then show ?thesis
    using resize_rounds_width [of initial_display_text "547 / 2"] by simp
qed

section \<open>The sortable list moves the dragged item\<close>

lemma findIndex_first:
  "i < length xs \<Longrightarrow> P (xs ! i) \<Longrightarrow> (\<And>k. k < i \<Longrightarrow> \<not> P (xs ! k)) \<Longrightarrow> findIndex P xs = int i"
proof (induction xs arbitrary: i)
  case Nil
  then show ?case by simp
next
  case (Cons x xs)
  show ?case
  proof (cases i)
    case 0
    with Cons.prems show ?thesis by simp
  next
    case (Suc m)
    have nx: "\<not> P x" using Cons.prems(3) [of 0] Suc by simp
    have "findIndex P xs = int m"
    proof (rule Cons.IH)
      show "m < length xs" using Cons.prems(1) Suc by simp
      show "P (xs ! m)" using Cons.prems(2) Suc by simp
      show "\<not> P (xs ! k)" if "k < m" for k
        using Cons.prems(3) [of "Suc k"] that Suc by simp
    qed
    with nx Suc show ?thesis by (simp add: Let_def)
  qed
qed

lemma findIndex_distinct:
  assumes "distinct (map f xs)" "i < length xs"
  shows "findIndex (\<lambda>x. f x = f (xs ! i)) xs = int i"
proof (rule findIndex_first)
  show "i < length xs" by fact
  show "f (xs ! i) = f (xs ! i)" by simp
  show "f (xs ! k) \<noteq> f (xs ! i)" if "k < i" for k
  proof -
    have "k < length (map f xs)" "i < length (map f xs)" "k \<noteq> i"
      using that assms(2) by simp_all
    with assms(1) have "map f xs ! k \<noteq> map f xs ! i"
      unfolding distinct_conv_nth by blast
    then show ?thesis using that assms(2) by simp
  qed
qed

lemma arrayMove_in_range:
  assumes "i < length xs" "j < length xs"
  shows "arrayMove xs (int i) (int j) = Some (move_item i j xs)"
proof -
  have d: "drop i xs = xs ! i # drop (Suc i) xs"
    using assms(1) by (simp add: Cons_nth_drop_Suc)
  have l: "length (take i xs @ drop (Suc i) xs) = length xs - 1"
    using assms(1) by simp
  have m: "min j (length xs - 1) = j" using assms(2) by simp
  show ?thesis
    using assms
    by (simp add: arrayMove_def splice_start_def Let_def d move_item_def insert_at_def
        remove_at_def min_absorb1 m)
qed

lemma length_remove_at: "i < length xs \<Longrightarrow> length (remove_at i xs) = length xs - 1"
  by (simp add: remove_at_def)

lemma move_item_nth:
  assumes "i < length xs" "j < length xs"
  shows "move_item i j xs ! j = xs ! i"
proof -
  have "length (take j (remove_at i xs)) = j"
    using assms by (simp add: length_remove_at)
  then show ?thesis
    by (simp add: move_item_def insert_at_def nth_append)
qed

lemma remove_at_move_item:
  assumes "i < length xs" "j < length xs"
  shows "remove_at j (move_item i j xs) = remove_at i xs"
proof -
  have l: "length (take j (remove_at i xs)) = j"
    using assms by (simp add: length_remove_at)
  have "remove_at j (take j (remove_at i xs) @ xs ! i # drop j (remove_at i xs)) =
        take j (remove_at i xs) @ drop j (remove_at i xs)"
    unfolding remove_at_def [of j] using l by simp
  then show ?thesis by (simp add: move_item_def insert_at_def)
qed

lemma mset_move_item:
  assumes "i < length xs"
  shows "mset (move_item i j xs) = mset xs"
proof -
  have "mset (remove_at i xs) + {#xs ! i#} = mset xs"
  proof -
    have "xs = take i xs @ xs ! i # drop (Suc i) xs"
      using assms by (simp add: id_take_nth_drop [symmetric])
    then have "mset xs = mset (take i xs @ xs ! i # drop (Suc i) xs)" by simp
    then show ?thesis by (simp add: remove_at_def)
  qed
  moreover have "mset (move_item i j xs) = mset (remove_at i xs) + {#xs ! i#}"
  proof -
    have "mset (take j ys @ x # drop j ys) = mset ys + {#x#}" for ys :: "'a list" and x
      by (metis append_take_drop_id mset.simps(2) mset_append union_mset_add_mset_right add_mset_add_single)
    then show ?thesis by (simp add: move_item_def insert_at_def)
  qed
  ultimately show ?thesis by simp
qed

lemma findIndex_range: "- 1 \<le> findIndex P xs \<and> findIndex P xs < int (length xs)"
  by (induction xs) (simp_all add: Let_def)

lemma arrayMove_defined:
  assumes "xs \<noteq> []" "- 1 \<le> from" "from < int (length xs)"
  shows "arrayMove xs from to \<noteq> None"
proof -
  have "splice_start from (length xs) < length xs"
  proof (cases "from < 0")
    case True
    then have "from = - 1" using assms(2) by simp
    moreover obtain y ys where "xs = y # ys" using assms(1) by (cases xs) auto
    ultimately show ?thesis by (simp add: splice_start_def)
  next
    case False
    then show ?thesis using assms(3) by (simp add: splice_start_def)
  qed
  then have "take 1 (drop (splice_start from (length xs)) xs) \<noteq> []" by simp
  then show ?thesis
    by (auto simp: arrayMove_def Let_def split: list.splits)
qed

lemma onDragEnd_defined:
  assumes "items st \<noteq> []"
  shows "onDragEnd a over st \<noteq> None"
proof (cases over)
  case None
  then show ?thesis by (simp add: onDragEnd_def Let_def)
next
  case (Some ov)
  have "arrayMove (items st) (findIndex (\<lambda>it. item_id it = a) (items st))
          (findIndex (\<lambda>it. item_id it = ov) (items st)) \<noteq> None"
    using assms findIndex_range [of "\<lambda>it. item_id it = a" "items st"]
    by (intro arrayMove_defined) simp_all
  then show ?thesis using Some by (auto simp: onDragEnd_def Let_def)
qed

text \<open>
  Claim C3. Let the held items have distinct identifiers, the active item stand at
  index \<open>i\<close> and the item the drag ended over at index \<open>j\<close>, the two identifiers being
  different. Then \<^verbatim>\<open>onDragEnd\<close> calls \<^verbatim>\<open>onChange\<close> once, with the sequence in which
  the item of index \<open>i\<close> has been removed and inserted at index \<open>j\<close>, and holds that
  sequence afterwards. In it the moved item stands at index \<open>j\<close>, the other items keep
  their order, and no item is lost or added. A drag that ends over nothing, or over the
  item it started on, calls \<^verbatim>\<open>onChange\<close> not at all and leaves the held sequence.
\<close>

theorem onDragEnd_moves:
  "(distinct (map item_id (items st)) \<and> i < length (items st) \<and> j < length (items st) \<and>
    item_id (items st ! i) = a \<and> item_id (items st ! j) = ov \<and> a \<noteq> ov \<longrightarrow>
      onDragEnd a (Some ov) st =
        Some (st\<lparr>isDragging := False, items := move_item i j (items st), active := None\<rparr>,
              [move_item i j (items st)]) \<and>
      move_item i j (items st) ! j = items st ! i \<and>
      remove_at j (move_item i j (items st)) = remove_at i (items st) \<and>
      mset (move_item i j (items st)) = mset (items st)) \<and>
   onDragEnd a None st = Some (st\<lparr>isDragging := False, active := None\<rparr>, []) \<and>
   onDragEnd a (Some a) st = Some (st\<lparr>isDragging := False, active := None\<rparr>, [])"
proof (intro conjI impI)
  assume h: "distinct (map item_id (items st)) \<and> i < length (items st) \<and>
    j < length (items st) \<and> item_id (items st ! i) = a \<and> item_id (items st ! j) = ov \<and> a \<noteq> ov"
  then have d: "distinct (map item_id (items st))" and i: "i < length (items st)"
    and j: "j < length (items st)" by simp_all
  have "findIndex (\<lambda>it. item_id it = a) (items st) = int i"
    using findIndex_distinct [OF d i] h by simp
  moreover have "findIndex (\<lambda>it. item_id it = ov) (items st) = int j"
    using findIndex_distinct [OF d j] h by simp
  ultimately show "onDragEnd a (Some ov) st =
        Some (st\<lparr>isDragging := False, items := move_item i j (items st), active := None\<rparr>,
              [move_item i j (items st)])"
    using h arrayMove_in_range [OF i j] by (simp add: onDragEnd_def Let_def)
  show "move_item i j (items st) ! j = items st ! i"
    using i j by (rule move_item_nth)
  show "remove_at j (move_item i j (items st)) = remove_at i (items st)"
    using i j by (rule remove_at_move_item)
  show "mset (move_item i j (items st)) = mset (items st)"
    using i by (rule mset_move_item)
next
  show "onDragEnd a None st = Some (st\<lparr>isDragging := False, active := None\<rparr>, [])"
    by (simp add: onDragEnd_def Let_def)
  show "onDragEnd a (Some a) st = Some (st\<lparr>isDragging := False, active := None\<rparr>, [])"
    by (simp add: onDragEnd_def Let_def)
qed

theorem onDragEnd_moves_witness:
  "onDragEnd (1::nat) (Some 3)
     (onDragStart 1 (initial_sortable
        [\<lparr>item_id = 1, payload = ''a''\<rparr>, \<lparr>item_id = 2, payload = ''b''\<rparr>,
         \<lparr>item_id = 3, payload = ''c''\<rparr>])) =
     Some (initial_sortable
        [\<lparr>item_id = 2, payload = ''b''\<rparr>, \<lparr>item_id = 3, payload = ''c''\<rparr>,
         \<lparr>item_id = 1, payload = ''a''\<rparr>],
       [[\<lparr>item_id = 2, payload = ''b''\<rparr>, \<lparr>item_id = 3, payload = ''c''\<rparr>,
         \<lparr>item_id = 1, payload = ''a''\<rparr>]]) \<and>
   swap_items 0 2
     [\<lparr>item_id = 1::nat, payload = ''a''\<rparr>, \<lparr>item_id = 2, payload = ''b''\<rparr>,
      \<lparr>item_id = 3, payload = ''c''\<rparr>] =
     [\<lparr>item_id = 3, payload = ''c''\<rparr>, \<lparr>item_id = 2, payload = ''b''\<rparr>,
      \<lparr>item_id = 1, payload = ''a''\<rparr>]"
  using onDragEnd_moves
    [of "onDragStart 1 (initial_sortable
        [\<lparr>item_id = 1::nat, payload = ''a''\<rparr>, \<lparr>item_id = 2, payload = ''b''\<rparr>,
         \<lparr>item_id = 3, payload = ''c''\<rparr>])" 0 2 1 3]
  by (simp add: onDragStart_def initial_sortable_def move_item_def insert_at_def remove_at_def
      swap_items_def)

text \<open>
  Claim C6. A cancel calls \<^verbatim>\<open>onChange\<close> not at all, leaves the held sequence, and
  leaves nothing active and the list out of dragging mode. A drag that started in the
  state between two drags and is cancelled ends in that very state.
\<close>

theorem onDragCancel_restores:
  "(idle st \<longrightarrow> onDragCancel (onDragStart a st) = (st, [])) \<and>
   snd (onDragCancel st) = [] \<and>
   items (fst (onDragCancel st)) = items st \<and>
   idle (fst (onDragCancel st))"
  by (simp add: idle_def onDragCancel_def onDragStart_def)

theorem onDragCancel_restores_witness:
  "idle (initial_sortable [\<lparr>item_id = 1::nat, payload = ''a''\<rparr>, \<lparr>item_id = 2, payload = ''b''\<rparr>]) \<and>
   onDragCancel (onDragStart 2
      (initial_sortable [\<lparr>item_id = 1::nat, payload = ''a''\<rparr>, \<lparr>item_id = 2, payload = ''b''\<rparr>])) =
     (initial_sortable [\<lparr>item_id = 1, payload = ''a''\<rparr>, \<lparr>item_id = 2, payload = ''b''\<rparr>], [])"
  using onDragCancel_restores
    [of "initial_sortable [\<lparr>item_id = 1::nat, payload = ''a''\<rparr>, \<lparr>item_id = 2, payload = ''b''\<rparr>]" 2]
  by (simp add: idle_def initial_sortable_def)

section \<open>The course block: what it shows and what a click does\<close>

text \<open>
  Claim C8. In the component and in its variant, whatever the course and whatever
  the value of \<^verbatim>\<open>enableCourseStatusChips\<close>, the render shows a status chip exactly when
  \<^verbatim>\<open>enableCourseStatusChips\<close> is true and the status of the course is not
  \<^verbatim>\<open>Status.OPEN\<close>; the chip it shows is the one of the status of the course.
\<close>

theorem status_chip_shown_iff:
  "shows_status_chip
     (PopupCourseBlock_render OPEN IS_STORYBOOK course enableCourseStatusChips
        enableTimeAndLocationInPopup copied) =
     (enableCourseStatusChips \<and> status course \<noteq> OPEN) \<and>
   shows_status_chip (PopupCourseBlock_variant_render OPEN course enableCourseStatusChips) =
     (enableCourseStatusChips \<and> status course \<noteq> OPEN) \<and>
   (StatusChip st \<in> set (PopupCourseBlock_render OPEN IS_STORYBOOK course
        enableCourseStatusChips enableTimeAndLocationInPopup copied)) =
     (enableCourseStatusChips \<and> status course \<noteq> OPEN \<and> st = status course) \<and>
   (StatusChip st \<in> set (PopupCourseBlock_variant_render OPEN course enableCourseStatusChips)) =
     (enableCourseStatusChips \<and> status course \<noteq> OPEN \<and> st = status course)"
  by (auto simp: shows_status_chip_def PopupCourseBlock_render_def
      PopupCourseBlock_variant_render_def)

theorem status_chip_shown_iff_witness:
  "shows_status_chip
     (PopupCourseBlock_render ''OPEN'' False \<lparr>uniqueId = 42, status = ''CLOSED''\<rparr> True False False) \<and>
   \<not> shows_status_chip
     (PopupCourseBlock_render ''OPEN'' False \<lparr>uniqueId = 42, status = ''OPEN''\<rparr> True False False) \<and>
   \<not> shows_status_chip
     (PopupCourseBlock_render ''OPEN'' False \<lparr>uniqueId = 42, status = ''CLOSED''\<rparr> False False False) \<and>
   shows_status_chip
     (PopupCourseBlock_variant_render ''OPEN'' \<lparr>uniqueId = 42, status = ''CLOSED''\<rparr> True)"
  using status_chip_shown_iff
      [of "''OPEN''" False "\<lparr>uniqueId = 42, status = ''CLOSED''\<rparr>" True False False]
    status_chip_shown_iff
      [of "''OPEN''" False "\<lparr>uniqueId = 42, status = ''OPEN''\<rparr>" True False False]
    status_chip_shown_iff
      [of "''OPEN''" False "\<lparr>uniqueId = 42, status = ''CLOSED''\<rparr>" False False False]
  by simp

text \<open>
  Claim C9. In the component and in its variant, a click calls
  \<^verbatim>\<open>switchToCalendarTab\<close> first, with the \<^verbatim>\<open>uniqueId\<close> of the course. The window is
  closed exactly when that call has resolved, and then the call and its resolution stand
  before the close: the close is the last thing that happens. While the call is pending,
  and when it is rejected, the window is not closed.
\<close>

theorem handleClick_closes_after_call:
  "hd (handleClick course outcome) = SwitchToCalendarTab (uniqueId course) \<and>
   (WindowClose \<in> set (handleClick course outcome)) = (outcome = Some Resolved) \<and>
   handleClick course (Some Resolved) =
     [SwitchToCalendarTab (uniqueId course), Settled Resolved, WindowClose] \<and>
   before_close (handleClick course (Some Resolved)) =
     [SwitchToCalendarTab (uniqueId course), Settled Resolved] \<and>
   hd (handleClick_variant course outcome) = SwitchToCalendarTab (uniqueId course) \<and>
   (WindowClose \<in> set (handleClick_variant course outcome)) = (outcome = Some Resolved) \<and>
   handleClick_variant course (Some Resolved) =
     [SwitchToCalendarTab (uniqueId course), Settled Resolved, WindowClose] \<and>
   before_close (handleClick_variant course (Some Resolved)) =
     [SwitchToCalendarTab (uniqueId course), Settled Resolved]"
proof (cases outcome)
  case None
  then show ?thesis
    by (simp add: handleClick_def handleClick_variant_def before_close_def)
next
  case (Some r)
  then show ?thesis
    by (cases r) (simp_all add: handleClick_def handleClick_variant_def before_close_def)
qed

theorem handleClick_closes_after_call_witness:
  "handleClick \<lparr>uniqueId = 42, status = ''OPEN''\<rparr> (Some Resolved) =
     [SwitchToCalendarTab 42, Settled Resolved, WindowClose] \<and>
   WindowClose \<notin> set (handleClick \<lparr>uniqueId = 42, status = ''OPEN''\<rparr> None) \<and>
   WindowClose \<notin> set (handleClick \<lparr>uniqueId = 42, status = ''OPEN''\<rparr> (Some Rejected))"
  using handleClick_closes_after_call [of "\<lparr>uniqueId = 42, status = ''OPEN''\<rparr>" "Some Resolved"]
    handleClick_closes_after_call [of "\<lparr>uniqueId = 42, status = ''OPEN''\<rparr>" None]
    handleClick_closes_after_call [of "\<lparr>uniqueId = 42, status = ''OPEN''\<rparr>" "Some Rejected"]
  by simp

section \<open>The copy control: the guard and the copied state\<close>

lemma handleCopy_guarded: "guarded s now \<Longrightarrow> handleCopy str now s = s"
  by (simp add: handleCopy_def guarded_def)

lemma handleCopy_unguarded:
  "\<not> guarded s now \<Longrightarrow>
   handleCopy str now s =
     s\<lparr>lastCopyTime := now, clipboardWrites := clipboardWrites s @ [str],
       awaiting := Suc (awaiting s)\<rparr>"
  by (simp add: handleCopy_def guarded_def)

lemma copy_step_within:
  "within_500_of (lastCopyTime s) ev \<Longrightarrow>
   lastCopyTime (copy_step str s ev) = lastCopyTime s \<and>
   clipboardWrites (copy_step str s ev) = clipboardWrites s"
  by (cases ev)
    (simp_all add: handleCopy_def handleCopy_resumed_def handleCopy_rejected_def
      timeout_fires_def split: list.splits)

lemma copy_run_within:
  "list_all (within_500_of (lastCopyTime s)) evs \<Longrightarrow>
   lastCopyTime (copy_run str s evs) = lastCopyTime s \<and>
   clipboardWrites (copy_run str s evs) = clipboardWrites s"
proof (induction evs arbitrary: s)
  case Nil
  then show ?case by (simp add: copy_run_def)
next
  case (Cons ev evs)
  have st: "lastCopyTime (copy_step str s ev) = lastCopyTime s"
    "clipboardWrites (copy_step str s ev) = clipboardWrites s"
    using Cons.prems copy_step_within [of s ev str] by simp_all
  have "list_all (within_500_of (lastCopyTime (copy_step str s ev))) evs"
    using Cons.prems st by simp
  from Cons.IH [OF this] st show ?case by (simp add: copy_run_def)
qed
lemma handleCopy_resumed_copied:
  "0 < awaiting s \<Longrightarrow>
   isCopied (handleCopy_resumed t s) \<and>
   timeouts (handleCopy_resumed t s) = timeouts s @ [t + 500]"
  by (simp add: handleCopy_resumed_def)

lemma guarded_clicks_run:
  "list_all (guarded s) clicks \<Longrightarrow> copy_run str s (map CopyClicked clicks) = s"
proof (induction clicks)
  case Nil
  then show ?case by (simp add: copy_run_def)
next
  case (Cons c cs)
  then show ?case by (simp add: copy_run_def handleCopy_guarded)
qed

lemma guarded_resumed: "guarded (handleCopy_resumed t s) = guarded s"
  by (simp add: fun_eq_iff guarded_def handleCopy_resumed_def)

lemma copy_step_keeps_copied:
  assumes "\<not> is_timeout ev" "isCopied s" "take 1 (timeouts s) = [d]"
  shows "isCopied (copy_step str s ev) \<and> take 1 (timeouts (copy_step str s ev)) = [d]"
proof -
  obtain ds where ts: "timeouts s = d # ds"
    using assms(3) by (cases "timeouts s") simp_all
  show ?thesis
    using assms(1,2) ts
    by (cases ev)
      (simp_all add: handleCopy_def handleCopy_resumed_def handleCopy_rejected_def)
qed

lemma copy_run_keeps_copied:
  "list_all (\<lambda>ev. \<not> is_timeout ev) evs \<Longrightarrow> isCopied s \<Longrightarrow> take 1 (timeouts s) = [d] \<Longrightarrow>
   isCopied (copy_run str s evs) \<and> take 1 (timeouts (copy_run str s evs)) = [d]"
proof (induction evs arbitrary: s)
  case Nil
  then show ?case by (simp add: copy_run_def)
next
  case (Cons ev evs)
  have st: "isCopied (copy_step str s ev) \<and> take 1 (timeouts (copy_step str s ev)) = [d]"
    using Cons.prems by (intro copy_step_keeps_copied) simp_all
  have "isCopied (copy_run str (copy_step str s ev) evs) \<and>
        take 1 (timeouts (copy_run str (copy_step str s ev) evs)) = [d]"
    using Cons.prems st by (intro Cons.IH) simp_all
  then show ?case by (simp add: copy_run_def)
qed

lemma timeout_fires_not_copied:
  "take 1 (timeouts s) = [d] \<Longrightarrow>
   \<not> isCopied (timeout_fires s) \<and> timeouts (timeout_fires s) = tl (timeouts s)"
  by (cases "timeouts s") (simp_all add: timeout_fires_def)

lemmas copy_eval = copy_run_def handleCopy_def handleCopy_resumed_def handleCopy_rejected_def
  timeout_fires_def initial_copy_state_def guarded_def

text \<open>
  Claim C4, as stated: an invocation less than 500 ms after the previous successful
  copy is ignored. The guard of line 90 does not count from the success of the copy: it
  counts from the invocation, whose time line 94 stores before the \<^verbatim>\<open>await\<close>. Below,
  the copy is invoked at 1000 and its write succeeds at 1005, which shows the copied
  state; the next invocation, at 1500, comes 495 ms after that success and 500 ms after
  the invocation: the guard lets it pass, and it writes to the clipboard a second time.
\<close>

theorem copy_within_500_of_success_writes:
  "(1500::int) - 1005 < 500 \<and>
   isCopied (copy_run ''00042'' initial_copy_state
       [CopyClicked 1000, WriteTextResolved 1005]) \<and>
   clipboardWrites (copy_run ''00042'' initial_copy_state
       [CopyClicked 1000, WriteTextResolved 1005]) = [''00042''] \<and>
   \<not> guarded (copy_run ''00042'' initial_copy_state
       [CopyClicked 1000, WriteTextResolved 1005]) 1500 \<and>
   clipboardWrites (copy_run ''00042'' initial_copy_state
       [CopyClicked 1000, WriteTextResolved 1005, CopyClicked 1500]) =
     [''00042'', ''00042''] \<and>
   awaiting (copy_run ''00042'' initial_copy_state
       [CopyClicked 1000, WriteTextResolved 1005, CopyClicked 1500]) = 1"
  by (simp add: copy_eval)

text \<open>
  Claim C4, amended. The 500 ms of the guard count from the invocation of the
  previous copy that passed the guard: the reading of \<^verbatim>\<open>Date.now()\<close> at that
  invocation, which is what \<^verbatim>\<open>lastCopyTime\<close> holds. An invocation less than 500 ms
  behind that time returns with the whole state as it was: nothing is written to the
  clipboard, nothing waits or is set to run later, and no rejection arises. For a pair
  of invocations: when the first one passes the guard at \<open>t1\<close> and the second one comes
  at \<open>t2\<close> less than 500 ms later, whatever settles or fires in between and whatever
  other invocations come in between, the second one is stopped by the guard and changes
  nothing, and of the whole history the first invocation alone has written to the
  clipboard.
\<close>

theorem handleCopy_guard_ignores:
  "(guarded s now \<longrightarrow> handleCopy str now s = s) \<and>
   (\<not> guarded s t1 \<and> list_all (within_500_of t1) evs \<and> t2 - t1 < 500 \<longrightarrow>
      guarded (copy_run str (handleCopy str t1 s) evs) t2 \<and>
      handleCopy str t2 (copy_run str (handleCopy str t1 s) evs) =
        copy_run str (handleCopy str t1 s) evs \<and>
      clipboardWrites (copy_run str (handleCopy str t1 s) (evs @ [CopyClicked t2])) =
        clipboardWrites s @ [str])"
proof (intro conjI impI)
  show "handleCopy str now s = s" if "guarded s now"
    using that by (rule handleCopy_guarded)
next
  assume a: "\<not> guarded s t1 \<and> list_all (within_500_of t1) evs \<and> t2 - t1 < 500"
  let ?s1 = "handleCopy str t1 s"
  have s1: "lastCopyTime ?s1 = t1" "clipboardWrites ?s1 = clipboardWrites s @ [str]"
    using a by (simp_all add: handleCopy_unguarded)
  have "list_all (within_500_of (lastCopyTime ?s1)) evs" using a s1 by simp
  from copy_run_within [OF this, of str] s1
  have r: "lastCopyTime (copy_run str ?s1 evs) = t1"
    "clipboardWrites (copy_run str ?s1 evs) = clipboardWrites s @ [str]"
    by simp_all
  show g: "guarded (copy_run str ?s1 evs) t2"
    using a r by (simp add: guarded_def)
  show h: "handleCopy str t2 (copy_run str ?s1 evs) = copy_run str ?s1 evs"
    using g by (rule handleCopy_guarded)
  show "clipboardWrites (copy_run str ?s1 (evs @ [CopyClicked t2])) = clipboardWrites s @ [str]"
    using h r by (simp add: copy_run_def)
qed

theorem handleCopy_guard_ignores_witness:
  "\<not> guarded initial_copy_state 1000 \<and>
   list_all (within_500_of 1000) [WriteTextResolved 1005, CopyClicked 1200, TimeoutFires] \<and>
   (1499::int) - 1000 < 500 \<and>
   clipboardWrites (copy_run ''00042'' (handleCopy ''00042'' 1000 initial_copy_state)
      ([WriteTextResolved 1005, CopyClicked 1200, TimeoutFires] @ [CopyClicked 1499])) =
     [''00042''] \<and>
   guarded (copy_run ''00042'' (handleCopy ''00042'' 1000 initial_copy_state)
      [WriteTextResolved 1005, CopyClicked 1200, TimeoutFires]) 1499"
  using handleCopy_guard_ignores
    [of initial_copy_state 0 "''00042''" 1000
      "[WriteTextResolved 1005, CopyClicked 1200, TimeoutFires]" 1499]
  by (simp add: guarded_def initial_copy_state_def)

text \<open>
  Claim C5, as stated: after every successful copy the copied state becomes true and
  goes back to false exactly 500 ms later. It fails where two copies overlap. The guard
  counts from the invocation and the callback from the success of the write, which comes
  later: below, the first copy is invoked at 1000 and succeeds at 1005, so its callback
  is due at 1505; the second one is invoked at 1500, which the guard lets pass, and
  succeeds at 1502, so its callback is due at 2002. The callback that is due at 1505
  fires first and ends the copied state 3 ms after the second success, with the callback
  of the second copy still pending.
\<close>

theorem copied_state_cut_short:
  "\<not> guarded (copy_run ''00042'' initial_copy_state
       [CopyClicked 1000, WriteTextResolved 1005]) 1500 \<and>
   isCopied (copy_run ''00042'' initial_copy_state
       [CopyClicked 1000, WriteTextResolved 1005, CopyClicked 1500, WriteTextResolved 1502]) \<and>
   timeouts (copy_run ''00042'' initial_copy_state
       [CopyClicked 1000, WriteTextResolved 1005, CopyClicked 1500, WriteTextResolved 1502]) =
     [1505, 2002] \<and>
   \<not> isCopied (copy_run ''00042'' initial_copy_state
       [CopyClicked 1000, WriteTextResolved 1005, CopyClicked 1500, WriteTextResolved 1502,
        TimeoutFires]) \<and>
   timeouts (copy_run ''00042'' initial_copy_state
       [CopyClicked 1000, WriteTextResolved 1005, CopyClicked 1500, WriteTextResolved 1502,
        TimeoutFires]) = [2002]"
  by (simp add: copy_eval)

text \<open>
  Claim C5, amended. After every successful copy, at time \<open>t\<close>, the copied state is
  true and a callback that ends it is due at \<open>t + 500\<close>. An invocation that the guard
  stops changes nothing: not the copied state and not the pending callbacks. When no
  callback of an earlier copy is pending at the success, the copied state stays true
  until the callback due at \<open>t + 500\<close> fires, and is false once it has fired. That
  holds whatever happens in between: invocations that the guard stops, which leave the
  one callback pending and nothing behind it once it has fired, and as well invocations
  that pass the guard, writes that succeed and writes that fail, through all of which
  the callback due at \<open>t + 500\<close> remains the next one to fire.
\<close>

theorem copied_window:
  "(0 < awaiting s \<longrightarrow>
      isCopied (handleCopy_resumed t s) \<and>
      timeouts (handleCopy_resumed t s) = timeouts s @ [t + 500]) \<and>
   (guarded s now \<longrightarrow> handleCopy str now s = s) \<and>
   (0 < awaiting s \<and> timeouts s = [] \<and> list_all (guarded s) clicks \<longrightarrow>
      isCopied (copy_run str (handleCopy_resumed t s) (map CopyClicked clicks)) \<and>
      timeouts (copy_run str (handleCopy_resumed t s) (map CopyClicked clicks)) = [t + 500] \<and>
      \<not> isCopied (copy_run str (handleCopy_resumed t s) (map CopyClicked clicks @ [TimeoutFires])) \<and>
      timeouts (copy_run str (handleCopy_resumed t s) (map CopyClicked clicks @ [TimeoutFires])) = []) \<and>
   (0 < awaiting s \<and> timeouts s = [] \<and> list_all (\<lambda>ev. \<not> is_timeout ev) evs \<longrightarrow>
      isCopied (copy_run str (handleCopy_resumed t s) evs) \<and>
      take 1 (timeouts (copy_run str (handleCopy_resumed t s) evs)) = [t + 500] \<and>
      \<not> isCopied (copy_run str (handleCopy_resumed t s) (evs @ [TimeoutFires])) \<and>
      timeouts (copy_run str (handleCopy_resumed t s) (evs @ [TimeoutFires])) =
        tl (timeouts (copy_run str (handleCopy_resumed t s) evs)))"
proof (intro conjI impI)
  show "handleCopy str now s = s" if "guarded s now"
    using that by (rule handleCopy_guarded)
next
  assume "0 < awaiting s"
  then show "isCopied (handleCopy_resumed t s)"
    "timeouts (handleCopy_resumed t s) = timeouts s @ [t + 500]"
    by (simp_all add: handleCopy_resumed_copied)
next
  assume a: "0 < awaiting s \<and> timeouts s = [] \<and> list_all (guarded s) clicks"
  let ?s1 = "handleCopy_resumed t s"
  have "list_all (guarded ?s1) clicks" using a by (simp add: guarded_resumed)
  then have e: "copy_run str ?s1 (map CopyClicked clicks) = ?s1"
    by (rule guarded_clicks_run)
  have e2: "copy_run str ?s1 (map CopyClicked clicks @ [TimeoutFires]) = timeout_fires ?s1"
    using e by (simp add: copy_run_def)
  have c: "isCopied ?s1" "timeouts ?s1 = [t + 500]"
    using a by (simp_all add: handleCopy_resumed_copied)
  show "isCopied (copy_run str ?s1 (map CopyClicked clicks))"
    "timeouts (copy_run str ?s1 (map CopyClicked clicks)) = [t + 500]"
    using e c by simp_all
  show "\<not> isCopied (copy_run str ?s1 (map CopyClicked clicks @ [TimeoutFires]))"
    "timeouts (copy_run str ?s1 (map CopyClicked clicks @ [TimeoutFires])) = []"
    using e2 c by (simp_all add: timeout_fires_def)
next
  assume a: "0 < awaiting s \<and> timeouts s = [] \<and> list_all (\<lambda>ev. \<not> is_timeout ev) evs"
  let ?s1 = "handleCopy_resumed t s"
  have c: "isCopied ?s1" "take 1 (timeouts ?s1) = [t + 500]"
    using a by (simp_all add: handleCopy_resumed_copied)
  have k: "isCopied (copy_run str ?s1 evs) \<and>
           take 1 (timeouts (copy_run str ?s1 evs)) = [t + 500]"
    using a c by (intro copy_run_keeps_copied) simp_all
  have f: "copy_run str ?s1 (evs @ [TimeoutFires]) = timeout_fires (copy_run str ?s1 evs)"
    by (simp add: copy_run_def)
  show "isCopied (copy_run str ?s1 evs)"
    "take 1 (timeouts (copy_run str ?s1 evs)) = [t + 500]"
    using k by simp_all
  show "\<not> isCopied (copy_run str ?s1 (evs @ [TimeoutFires]))"
    "timeouts (copy_run str ?s1 (evs @ [TimeoutFires])) =
       tl (timeouts (copy_run str ?s1 evs))"
    using k timeout_fires_not_copied [of "copy_run str ?s1 evs" "t + 500"] f by simp_all
qed

theorem copied_window_witness:
  "0 < awaiting (handleCopy ''00042'' 1000 initial_copy_state) \<and>
   timeouts (handleCopy ''00042'' 1000 initial_copy_state) = [] \<and>
   list_all (guarded (handleCopy ''00042'' 1000 initial_copy_state)) [1100, 1499] \<and>
   list_all (\<lambda>ev. \<not> is_timeout ev)
     [CopyClicked 1100, CopyClicked 1500, WriteTextResolved 1502, WriteTextRejected] \<and>
   \<not> guarded (handleCopy_resumed 1005 (handleCopy ''00042'' 1000 initial_copy_state)) 1500 \<and>
   isCopied (copy_run ''00042'' (handleCopy_resumed 1005 (handleCopy ''00042'' 1000 initial_copy_state))
      (map CopyClicked [1100, 1499])) \<and>
   timeouts (copy_run ''00042'' (handleCopy_resumed 1005 (handleCopy ''00042'' 1000 initial_copy_state))
      (map CopyClicked [1100, 1499])) = [1505] \<and>
   \<not> isCopied (copy_run ''00042'' (handleCopy_resumed 1005 (handleCopy ''00042'' 1000 initial_copy_state))
      (map CopyClicked [1100, 1499] @ [TimeoutFires])) \<and>
   isCopied (copy_run ''00042'' (handleCopy_resumed 1005 (handleCopy ''00042'' 1000 initial_copy_state))
      [CopyClicked 1100, CopyClicked 1500, WriteTextResolved 1502, WriteTextRejected]) \<and>
   take 1 (timeouts (copy_run ''00042''
      (handleCopy_resumed 1005 (handleCopy ''00042'' 1000 initial_copy_state))
      [CopyClicked 1100, CopyClicked 1500, WriteTextResolved 1502, WriteTextRejected])) = [1505] \<and>
   \<not> isCopied (copy_run ''00042'' (handleCopy_resumed 1005 (handleCopy ''00042'' 1000 initial_copy_state))
      ([CopyClicked 1100, CopyClicked 1500, WriteTextResolved 1502, WriteTextRejected] @
       [TimeoutFires]))"
  using copied_window
    [of "handleCopy ''00042'' 1000 initial_copy_state" 1005 1100 "''00042''" "[1100, 1499]"
      "[CopyClicked 1100, CopyClicked 1500, WriteTextResolved 1502, WriteTextRejected]"]
  by (simp add: guarded_def handleCopy_def handleCopy_resumed_def initial_copy_state_def)

section \<open>The listeners of the display settings\<close>

lemma setState_store [simp]: "store (setState i c v w) = store w"
  by (simp add: setState_def split: option.splits)

lemma setState_mounted:
  "mounted (setState i c v w) j =
     (if j = i then map_option (\<lambda>b. b\<lparr>cells := (cells b)(c \<mapsto> v)\<rparr>) (mounted w i)
      else mounted w j)"
  by (simp add: setState_def split: option.splits)

lemma listeners_of_setState [simp]: "listeners_of j (setState i c v w) = listeners_of j w"
  by (simp add: listeners_of_def)

lemma handles_fresh_setState: "handles_fresh (setState i c v w) = handles_fresh w"
  by (simp add: handles_fresh_def)

lemma paired_setState: "paired w \<Longrightarrow> paired (setState i c v w)"
  unfolding paired_def
proof
  fix j
  assume a: "\<forall>i. case mounted w i of None \<Rightarrow> listeners_of i w = []
        | Some b \<Rightarrow> map fst (listeners_of i w) = handles b \<and>
                    map snd (listeners_of i w) = subscriptions i (kind b)"
  from a [rule_format, of j]
  show "case mounted (setState i c v w) j of None \<Rightarrow> listeners_of j (setState i c v w) = []
        | Some b \<Rightarrow> map fst (listeners_of j (setState i c v w)) = handles b \<and>
                    map snd (listeners_of j (setState i c v w)) = subscriptions j (kind b)"
    by (auto simp: setState_mounted split: option.splits)
qed


lemma well_paired_setState: "well_paired w \<Longrightarrow> well_paired (setState i c v w)"
  by (simp add: well_paired_def handles_fresh_setState paired_setState)

lemma well_paired_fold_setState:
  "well_paired w \<Longrightarrow> well_paired (foldl (\<lambda>w' cb. setState (fst cb) (snd cb) v w') w cbs)"
  by (induction cbs arbitrary: w) (simp_all add: well_paired_setState)

lemma well_paired_settings_changed: "well_paired w \<Longrightarrow> well_paired (settings_changed key v w)"
  by (simp add: settings_changed_def well_paired_fold_setState)

lemma well_paired_empty: "well_paired empty_world"
  by (simp add: well_paired_def handles_fresh_def paired_def empty_world_def listeners_of_def)

lemma unmounted_no_listener:
  "paired w \<Longrightarrow> mounted w i = None \<Longrightarrow> l \<in> set (listeners (store w)) \<Longrightarrow> fst (snd (snd l)) \<noteq> i"
proof
  assume p: "paired w" and m: "mounted w i = None" and l: "l \<in> set (listeners (store w))"
    and e: "fst (snd (snd l)) = i"
  from p m have "listeners_of i w = []" by (auto simp: paired_def split: option.splits dest: spec [of _ i])
  moreover from l e have "l \<in> set (listeners_of i w)" by (simp add: listeners_of_def)
  ultimately show False by simp
qed

lemma listeners_of_unmounted:
  "paired w \<Longrightarrow> mounted w i = None \<Longrightarrow> listeners_of i w = []"
  by (auto simp: paired_def split: option.splits dest: spec [of _ i])

lemma listeners_of_mounted:
  "paired w \<Longrightarrow> mounted w i = Some b \<Longrightarrow>
   map fst (listeners_of i w) = handles b \<and> map snd (listeners_of i w) = subscriptions i (kind b)"
  by (auto simp: paired_def split: option.splits dest: spec [of _ i])

lemma mount_store:
  "listeners (store (mount i w)) =
     listeners (store w) @
       [(nextHandle (store w), EnableCourseStatusChips, i, EnableCourseStatusChips),
        (Suc (nextHandle (store w)), EnableTimeAndLocationInPopup, i, EnableTimeAndLocationInPopup)]"
  "nextHandle (store (mount i w)) = Suc (Suc (nextHandle (store w)))"
  "mounted (mount i w) =
     (mounted w)(i \<mapsto> \<lparr>kind = Component,
        cells = [EnableCourseStatusChips \<mapsto> False, EnableTimeAndLocationInPopup \<mapsto> False],
        handles = [nextHandle (store w), Suc (nextHandle (store w))]\<rparr>)"
  by (simp_all add: mount_def listen_def)

lemma mount_variant_store:
  "listeners (store (mount_variant i w)) =
     listeners (store w) @
       [(nextHandle (store w), EnableCourseStatusChips, i, EnableCourseStatusChips)]"
  "nextHandle (store (mount_variant i w)) = Suc (nextHandle (store w))"
  "mounted (mount_variant i w) =
     (mounted w)(i \<mapsto> \<lparr>kind = Variant, cells = [EnableCourseStatusChips \<mapsto> False],
        handles = [nextHandle (store w)]\<rparr>)"
  by (simp_all add: mount_variant_def listen_def)

lemma listeners_of_mount:
  "listeners_of j (mount i w) =
     listeners_of j w @
       (if j = i then
          [(nextHandle (store w), EnableCourseStatusChips, i, EnableCourseStatusChips),
           (Suc (nextHandle (store w)), EnableTimeAndLocationInPopup, i, EnableTimeAndLocationInPopup)]
        else [])"
  by (simp add: listeners_of_def mount_store)

lemma listeners_of_mount_variant:
  "listeners_of j (mount_variant i w) =
     listeners_of j w @
       (if j = i then [(nextHandle (store w), EnableCourseStatusChips, i, EnableCourseStatusChips)]
        else [])"
  by (simp add: listeners_of_def mount_variant_store)

lemma fresh_not_in:
  "handles_fresh w \<Longrightarrow> nextHandle (store w) \<le> n \<Longrightarrow> n \<notin> fst ` set (listeners (store w))"
  by (auto simp: handles_fresh_def list_all_iff)

lemma well_paired_mount:
  assumes "well_paired w" "mounted w i = None"
  shows "well_paired (mount i w)"
proof -
  have f: "handles_fresh w" and p: "paired w" using assms(1) by (simp_all add: well_paired_def)
  have "handles_fresh (mount i w)"
    using f fresh_not_in [OF f, of "nextHandle (store w)"]
      fresh_not_in [OF f, of "Suc (nextHandle (store w))"]
    by (auto simp: handles_fresh_def mount_store list_all_iff)
  moreover have "paired (mount i w)"
    unfolding paired_def
  proof
    fix j
    show "case mounted (mount i w) j of None \<Rightarrow> listeners_of j (mount i w) = []
        | Some b \<Rightarrow> map fst (listeners_of j (mount i w)) = handles b \<and>
                    map snd (listeners_of j (mount i w)) = subscriptions j (kind b)"
    proof (cases "j = i")
      case True
      then show ?thesis
        using listeners_of_unmounted [OF p assms(2)]
        by (simp add: listeners_of_mount mount_store)
    next
      case False
      then show ?thesis
        using p by (auto simp: listeners_of_mount mount_store paired_def split: option.splits
            dest: spec [of _ j])
    qed
  qed
  ultimately show ?thesis by (simp add: well_paired_def)
qed

lemma well_paired_mount_variant:
  assumes "well_paired w" "mounted w i = None"
  shows "well_paired (mount_variant i w)"
proof -
  have f: "handles_fresh w" and p: "paired w" using assms(1) by (simp_all add: well_paired_def)
  have "handles_fresh (mount_variant i w)"
    using f fresh_not_in [OF f, of "nextHandle (store w)"]
    by (auto simp: handles_fresh_def mount_variant_store list_all_iff)
  moreover have "paired (mount_variant i w)"
    unfolding paired_def
  proof
    fix j
    show "case mounted (mount_variant i w) j of None \<Rightarrow> listeners_of j (mount_variant i w) = []
        | Some b \<Rightarrow> map fst (listeners_of j (mount_variant i w)) = handles b \<and>
                    map snd (listeners_of j (mount_variant i w)) = subscriptions j (kind b)"
    proof (cases "j = i")
      case True
      then show ?thesis
        using listeners_of_unmounted [OF p assms(2)]
        by (simp add: listeners_of_mount_variant mount_variant_store)
    next
      case False
      then show ?thesis
        using p by (auto simp: listeners_of_mount_variant mount_variant_store paired_def
            split: option.splits dest: spec [of _ j])
    qed
  qed
  ultimately show ?thesis by (simp add: well_paired_def)
qed

lemma foldl_removeListener:
  "foldl (\<lambda>st h. removeListener h st) st hs =
     st\<lparr>listeners := filter (\<lambda>l. fst l \<notin> set hs) (listeners st)\<rparr>"
proof (induction hs arbitrary: st)
  case Nil
  then show ?case by simp
next
  case (Cons h hs)
  have "foldl (\<lambda>st h. removeListener h st) (removeListener h st) hs =
        (removeListener h st)\<lparr>listeners :=
           filter (\<lambda>l. fst l \<notin> set hs) (listeners (removeListener h st))\<rparr>"
    by (rule Cons.IH)
  then show ?case by (simp add: removeListener_def)
qed

lemma unmount_mounted:
  "mounted w i = Some b \<Longrightarrow>
   listeners (store (unmount i w)) = filter (\<lambda>l. fst l \<notin> set (handles b)) (listeners (store w)) \<and>
   nextHandle (store (unmount i w)) = nextHandle (store w) \<and>
   mounted (unmount i w) = (mounted w)(i := None)"
  by (simp add: unmount_def foldl_removeListener)

lemma distinct_fst_eq:
  "distinct (map fst ls) \<Longrightarrow> l \<in> set ls \<Longrightarrow> l' \<in> set ls \<Longrightarrow> fst l = fst l' \<Longrightarrow> l = l'"
  by (meson distinct_map inj_onD)

lemma listeners_of_unmount:
  assumes "well_paired w" "mounted w i = Some b"
  shows "listeners_of j (unmount i w) = (if j = i then [] else listeners_of j w)"
proof -
  have f: "handles_fresh w" and p: "paired w" using assms(1) by (simp_all add: well_paired_def)
  have d: "distinct (map fst (listeners (store w)))" using f by (simp add: handles_fresh_def)
  have hb: "set (handles b) = fst ` set (listeners_of i w)"
    using listeners_of_mounted [OF p assms(2)] by (metis set_map)
  have own: "fst l \<in> set (handles b) \<longleftrightarrow> fst (snd (snd l)) = i"
    if l: "l \<in> set (listeners (store w))" for l
  proof
    assume "fst l \<in> set (handles b)"
    then obtain l' where l': "l' \<in> set (listeners_of i w)" "fst l' = fst l"
      using hb by auto
    then have "l' \<in> set (listeners (store w))" "fst (snd (snd l')) = i"
      by (simp_all add: listeners_of_def)
    moreover have "l = l'" using distinct_fst_eq [OF d l] calculation(1) l'(2) by simp
    ultimately show "fst (snd (snd l)) = i" by simp
  next
    assume "fst (snd (snd l)) = i"
    then have "l \<in> set (listeners_of i w)" using l by (simp add: listeners_of_def)
    then show "fst l \<in> set (handles b)" using hb by auto
  qed
  have "filter (\<lambda>l. fst (snd (snd l)) = j) (filter (\<lambda>l. fst l \<notin> set (handles b)) (listeners (store w))) =
        (if j = i then [] else filter (\<lambda>l. fst (snd (snd l)) = j) (listeners (store w)))"
  proof (cases "j = i")
    case True
    then show ?thesis using own by (auto simp: filter_empty_conv)
  next
    case False
    have "filter (\<lambda>l. fst (snd (snd l)) = j) (filter (\<lambda>l. fst l \<notin> set (handles b)) (listeners (store w))) =
          filter (\<lambda>l. fst (snd (snd l)) = j) (listeners (store w))"
      unfolding filter_filter using own False by (auto intro!: filter_cong)
    then show ?thesis using False by simp
  qed
  then show ?thesis
    using unmount_mounted [OF assms(2)] by (simp add: listeners_of_def)
qed

lemma well_paired_unmount:
  assumes "well_paired w"
  shows "well_paired (unmount i w)"
proof (cases "mounted w i")
  case None
  then show ?thesis using assms by (simp add: unmount_def)
next
  case (Some b)
  have f: "handles_fresh w" and p: "paired w" using assms(1) by (simp_all add: well_paired_def)
  have "handles_fresh (unmount i w)"
    using f unmount_mounted [OF Some]
    by (auto simp: handles_fresh_def list_all_iff distinct_map_filter)
  moreover have "paired (unmount i w)"
    unfolding paired_def
  proof
    fix j
    show "case mounted (unmount i w) j of None \<Rightarrow> listeners_of j (unmount i w) = []
        | Some b \<Rightarrow> map fst (listeners_of j (unmount i w)) = handles b \<and>
                    map snd (listeners_of j (unmount i w)) = subscriptions j (kind b)"
    proof (cases "j = i")
      case True
      then show ?thesis
        using unmount_mounted [OF Some] listeners_of_unmount [OF assms Some, of j] by simp
    next
      case False
      then show ?thesis
        using unmount_mounted [OF Some] listeners_of_unmount [OF assms Some, of j] p
        by (auto simp: paired_def split: option.splits dest: spec [of _ j])
    qed
  qed
  ultimately show ?thesis by (simp add: well_paired_def)
qed

lemma well_paired_step: "well_paired w \<Longrightarrow> well_paired (world_step w ev)"
  by (cases ev)
    (auto simp: well_paired_mount well_paired_mount_variant well_paired_unmount well_paired_settings_changed well_paired_setState
      initSettings_resolved_def initSettings_resolved_variant_def
      split: option.splits block_kind.splits)

lemma well_paired_run: "well_paired w \<Longrightarrow> well_paired (world_run w evs)"
  unfolding world_run_def by (induction evs arbitrary: w) (simp_all add: well_paired_step)


lemma mounted_fold_setState:
  "(mounted (foldl (\<lambda>w' cb. setState (fst cb) (snd cb) v w') w cbs) i = None) =
   (mounted w i = None)"
  by (induction cbs arbitrary: w) (simp_all add: setState_mounted)

lemma cell_of_setState:
  "cell_of (setState j c v w) i key =
     (if j = i \<and> c = key \<and> mounted w i \<noteq> None then Some v else cell_of w i key)"
  by (auto simp: cell_of_def setState_mounted split: option.splits)

lemma cell_of_fold_setState:
  "cell_of (foldl (\<lambda>w' cb. setState (fst cb) (snd cb) v w') w cbs) i key =
     (if (i, key) \<in> set cbs \<and> mounted w i \<noteq> None then Some v else cell_of w i key)"
proof (induction cbs arbitrary: w)
  case Nil
  then show ?case by simp
next
  case (Cons cb cbs)
  have m: "(mounted (setState (fst cb) (snd cb) v w) i \<noteq> None) = (mounted w i \<noteq> None)"
    by (simp add: setState_mounted)
  show ?case
    unfolding foldl_Cons Cons.IH m
    by (cases cb) (auto simp: cell_of_setState)
qed

lemma paired_zip:
  assumes "paired w"
  shows "listeners_of i w =
     (case mounted w i of None \<Rightarrow> [] | Some b \<Rightarrow> zip (handles b) (subscriptions i (kind b)))"
proof (cases "mounted w i")
  case None
  then show ?thesis using listeners_of_unmounted [OF assms] by simp
next
  case (Some b)
  have "listeners_of i w = zip (map fst (listeners_of i w)) (map snd (listeners_of i w))"
    by (simp add: zip_map_fst_snd)
  then show ?thesis using listeners_of_mounted [OF assms Some] Some by simp
qed

lemma unmounted_not_notified:
  assumes "paired w" "mounted w i = None"
  shows "list_all (\<lambda>cb. fst cb \<noteq> i) (notified key (store w))"
  using unmounted_no_listener [OF assms]
  by (auto simp: notified_def list_all_iff)

lemma mounted_notified:
  assumes "paired w" "mounted w i = Some b" "has_cell (kind b) key"
  shows "(i, key) \<in> set (notified key (store w))"
proof -
  have "(key, i, key) \<in> set (subscriptions i (kind b))"
    using assms(3) by (cases "kind b"; cases key) simp_all
  then have "(key, i, key) \<in> snd ` set (listeners_of i w)"
    using listeners_of_mounted [OF assms(1,2)] by (metis set_map)
  then obtain h where "(h, key, i, key) \<in> set (listeners_of i w)" by force
  then have "(h, key, i, key) \<in> set (listeners (store w))" by (simp add: listeners_of_def)
  then show ?thesis by (force simp: notified_def)
qed

lemma fresh_neq:
  "handles_fresh w \<Longrightarrow> nextHandle (store w) \<le> n \<Longrightarrow> l \<in> set (listeners (store w)) \<Longrightarrow> fst l \<noteq> n"
  by (auto simp: handles_fresh_def list_all_iff)

lemma unmount_mount:
  assumes "handles_fresh w"
  shows "listeners (store (unmount i (mount i w))) = listeners (store w)"
    and "listeners (store (unmount i (mount_variant i w))) = listeners (store w)"
proof -
  have a: "fst l \<noteq> nextHandle (store w)"
    and b: "fst l \<noteq> Suc (nextHandle (store w))"
    if "l \<in> set (listeners (store w))" for l
    using fresh_neq [OF assms _ that] by simp_all
  have "filter (\<lambda>l. fst l \<noteq> nextHandle (store w) \<and> fst l \<noteq> Suc (nextHandle (store w)))
          (listeners (store w)) = listeners (store w)"
    using a b by (simp add: filter_id_conv)
  then show "listeners (store (unmount i (mount i w))) = listeners (store w)"
    by (simp add: unmount_def foldl_removeListener mount_store)
  have "filter (\<lambda>l. fst l \<noteq> nextHandle (store w)) (listeners (store w)) = listeners (store w)"
    using a by (simp add: filter_id_conv)
  then show "listeners (store (unmount i (mount_variant i w))) = listeners (store w)"
    by (simp add: unmount_def foldl_removeListener mount_variant_store)
qed

lemmas world_eval = world_run_def mount_def mount_variant_def unmount_def listen_def
  removeListener_def settings_changed_def setState_def notified_def listeners_of_def
  empty_world_def cell_of_def initSettings_resolved_def initSettings_resolved_variant_def

text \<open>
  Claim C7, as stated: the block subscribes on mount to both display settings. The
  variant of lines 187-299 does not: it has no cell for
  \<^verbatim>\<open>enableTimeAndLocationInPopup\<close> and registers the one listener of
  \<^verbatim>\<open>enableCourseStatusChips\<close>. After its mount a change of
  \<^verbatim>\<open>enableTimeAndLocationInPopup\<close> reaches no callback and no cell.
\<close>

theorem variant_listens_to_one_setting:
  "listeners_of 0 (world_run empty_world [MountVariant 0]) =
     [(0, EnableCourseStatusChips, 0, EnableCourseStatusChips)] \<and>
   notified EnableTimeAndLocationInPopup (store (world_run empty_world [MountVariant 0])) = [] \<and>
   cell_of (world_run empty_world [MountVariant 0, SettingsChanged EnableTimeAndLocationInPopup True])
     0 EnableTimeAndLocationInPopup = None"
  by (simp add: world_eval)

text \<open>
  Claim C7, amended. In every world that a history of mounts, unmounts, loaded
  settings and changed settings reaches from the empty one: the subscriptions of a
  mounted block are the ones of its kind under the handles it keeps (both settings for
  the component, \<^verbatim>\<open>enableCourseStatusChips\<close> alone for the variant), and a block that
  is not mounted has none, so registration and teardown are paired one to one. A change
  of a setting sets the cell of that setting in every mounted block that has it. After
  the unmount of a block no subscription of it is left, a change of a setting calls no
  callback of it and finds no cell of it. A mount registers its subscriptions under
  fresh handles, and the unmount that follows gives back the store as it was before.
\<close>

theorem blocks_listeners_paired:
  assumes "w = world_run empty_world evs"
  shows "listeners_of i w =
           (case mounted w i of
              None \<Rightarrow> []
            | Some b \<Rightarrow> zip (handles b) (subscriptions i (kind b))) \<and>
         (\<forall>b. mounted w i = Some b \<and> has_cell (kind b) key \<longrightarrow>
            cell_of (settings_changed key v w) i key = Some v) \<and>
         listeners_of i (unmount i w) = [] \<and>
         list_all (\<lambda>cb. fst cb \<noteq> i) (notified key (store (unmount i w))) \<and>
         cell_of (settings_changed key v (unmount i w)) i key = None \<and>
         (mounted w i = None \<longrightarrow>
            listeners_of i (mount i w) =
              [(nextHandle (store w), EnableCourseStatusChips, i, EnableCourseStatusChips),
               (Suc (nextHandle (store w)), EnableTimeAndLocationInPopup, i,
                EnableTimeAndLocationInPopup)] \<and>
            listeners_of i (mount_variant i w) =
              [(nextHandle (store w), EnableCourseStatusChips, i, EnableCourseStatusChips)] \<and>
            listeners (store (unmount i (mount i w))) = listeners (store w) \<and>
            listeners (store (unmount i (mount_variant i w))) = listeners (store w))"
proof -
  have i: "well_paired w" using assms well_paired_run [OF well_paired_empty] by simp
  then have f: "handles_fresh w" and p: "paired w" by (simp_all add: well_paired_def)
  have iu: "well_paired (unmount i w)" using i by (rule well_paired_unmount)
  then have pu: "paired (unmount i w)" by (simp add: well_paired_def)
  have mu: "mounted (unmount i w) i = None"
    by (simp add: unmount_def split: option.splits)
  have c1: "listeners_of i w =
           (case mounted w i of
              None \<Rightarrow> []
            | Some b \<Rightarrow> zip (handles b) (subscriptions i (kind b)))"
    using p by (rule paired_zip)
  have c2: "cell_of (settings_changed key v w) i key = Some v"
    if "mounted w i = Some b \<and> has_cell (kind b) key" for b
    using mounted_notified [OF p, of i b key] that
    by (simp add: settings_changed_def cell_of_fold_setState)
  have c3: "listeners_of i (unmount i w) = []"
    using pu mu by (rule listeners_of_unmounted)
  have c4: "list_all (\<lambda>cb. fst cb \<noteq> i) (notified key (store (unmount i w)))"
    using pu mu by (rule unmounted_not_notified)
  have c5: "cell_of (settings_changed key v (unmount i w)) i key = None"
  proof -
    have "cell_of (unmount i w) i key = None" using mu by (simp add: cell_of_def)
    then show ?thesis using mu by (simp add: settings_changed_def cell_of_fold_setState)
  qed
  have c6: "listeners_of i (mount i w) =
              [(nextHandle (store w), EnableCourseStatusChips, i, EnableCourseStatusChips),
               (Suc (nextHandle (store w)), EnableTimeAndLocationInPopup, i,
                EnableTimeAndLocationInPopup)]"
    "listeners_of i (mount_variant i w) =
              [(nextHandle (store w), EnableCourseStatusChips, i, EnableCourseStatusChips)]"
    if "mounted w i = None"
    using listeners_of_unmounted [OF p that]
    by (simp_all add: listeners_of_mount listeners_of_mount_variant)
  show ?thesis
    using c1 c2 c3 c4 c5 c6 unmount_mount [OF f, of i] by blast
qed

theorem blocks_listeners_paired_witness:
  "listeners_of 0 (world_run empty_world [Mount 0, MountVariant 1]) =
     [(0, EnableCourseStatusChips, 0, EnableCourseStatusChips),
      (1, EnableTimeAndLocationInPopup, 0, EnableTimeAndLocationInPopup)] \<and>
   cell_of (settings_changed EnableTimeAndLocationInPopup True
      (world_run empty_world [Mount 0, MountVariant 1])) 0 EnableTimeAndLocationInPopup =
     Some True \<and>
   listeners_of 0 (unmount 0 (world_run empty_world [Mount 0, MountVariant 1])) = [] \<and>
   cell_of (settings_changed EnableTimeAndLocationInPopup True
      (unmount 0 (world_run empty_world [Mount 0, MountVariant 1]))) 0
      EnableTimeAndLocationInPopup = None \<and>
   mounted (world_run empty_world [Mount 0, MountVariant 1]) 2 = None \<and>
   listeners (store (unmount 2 (mount 2 (world_run empty_world [Mount 0, MountVariant 1])))) =
     listeners (store (world_run empty_world [Mount 0, MountVariant 1]))"
proof -
  have m: "mounted (world_run empty_world [Mount 0, MountVariant 1]) 0 =
      Some \<lparr>kind = Component,
        cells = [EnableCourseStatusChips \<mapsto> False, EnableTimeAndLocationInPopup \<mapsto> False],
        handles = [0, 1]\<rparr>"
    "mounted (world_run empty_world [Mount 0, MountVariant 1]) 2 = None"
    by (simp_all add: world_eval)
  show ?thesis
    using blocks_listeners_paired
        [of "world_run empty_world [Mount 0, MountVariant 1]" "[Mount 0, MountVariant 1]" 0
          EnableTimeAndLocationInPopup True]
      blocks_listeners_paired
        [of "world_run empty_world [Mount 0, MountVariant 1]" "[Mount 0, MountVariant 1]" 2
          EnableTimeAndLocationInPopup True]
      m
    by simp
qed

end
